theory Spec2Isabelle
  imports Main "HOL-Library.Word"
begin

section \<open>Data model of the loopback engine (class UnMuter of Source/UROnMute.h)\<close>

text \<open>
  A sample is a C++ \<^verbatim>\<open>float\<close>. The engine never computes with samples: it copies
  them and clears them with \<^verbatim>\<open>zeromem\<close>. A sample is therefore modelled by its 32-bit
  pattern; the all-zero pattern is the float \<^verbatim>\<open>0.0\<close>, and equality of samples is equality
  of the stored patterns.

  The three counts of the callback are C++ \<^verbatim>\<open>int\<close>: 32-bit words read in two's
  complement by \<open>sint\<close>. \<^verbatim>\<open>size_t\<close> is taken as 64 bits wide.

  Every channel buffer is an object of its own in the store: a channel pointer is either
  \<^verbatim>\<open>nullptr\<close> (\<open>None\<close>) or the address of a buffer, so two channel pointers denote either
  the same buffer or two disjoint ones. A pointer to an address that holds no buffer is
  dangling.
\<close>

type_synonym sample = "32 word"
type_synonym cint = "32 word"
type_synonym size_t = "64 word"
type_synonym addr = nat
type_synonym chan_ptr = "addr option"
type_synonym heap = "addr \<Rightarrow> sample list option"

text \<open>
  What C++ leaves undefined is a value of the model: dereferencing \<^verbatim>\<open>nullptr\<close>, accessing
  memory outside a buffer (or outside an array of channel pointers, or through a dangling
  pointer), and overflow of a signed \<^verbatim>\<open>int\<close>.
\<close>

datatype fault = NullPointer | OutOfBounds | SignedOverflow

text \<open>
  The members of \<^verbatim>\<open>UnMuter\<close>. \<open>resultsBox\<close> is the text of the editor the engine holds a
  reference to; \<open>lock\<close> counts how often the running thread holds the (re-entrant)
  \<^verbatim>\<open>CriticalSection\<close>. \<open>journal\<close> is not a member: it records, in program order, every
  access to \<open>testIsRunning\<close> together with whether \<open>lock\<close> was held at that moment.
\<close>

datatype access = FlagRead | FlagWrite

record UnMuter =
  resultsBox :: string
  lock :: nat
  testIsRunning :: bool
  journal :: "(access \<times> bool) list"

definition INT_MIN :: int where
  "INT_MIN = - (2 ^ 31)"

definition sizeof_float :: size_t where
  "sizeof_float = 4"

section \<open>Memory accesses\<close>

text \<open>\<^verbatim>\<open>channelData[k]\<close>: reading entry \<open>k\<close> of an array of channel pointers.\<close>

definition ptr_at :: "chan_ptr list \<Rightarrow> int \<Rightarrow> fault + chan_ptr" where
  "ptr_at channelData k =
     (if 0 \<le> k \<and> k < int (length channelData) then Inr (channelData ! nat k)
      else Inl OutOfBounds)"

text \<open>\<^verbatim>\<open>p[i]\<close> read, and \<^verbatim>\<open>p[i] = v\<close>.\<close>

definition load :: "heap \<Rightarrow> chan_ptr \<Rightarrow> int \<Rightarrow> fault + sample" where
  "load h p i =
     (case p of
        None \<Rightarrow> Inl NullPointer
      | Some a \<Rightarrow>
          (case h a of
             None \<Rightarrow> Inl OutOfBounds
           | Some buf \<Rightarrow>
               if 0 \<le> i \<and> i < int (length buf) then Inr (buf ! nat i) else Inl OutOfBounds))"

definition store :: "heap \<Rightarrow> chan_ptr \<Rightarrow> int \<Rightarrow> sample \<Rightarrow> fault + heap" where
  "store h p i v =
     (case p of
        None \<Rightarrow> Inl NullPointer
      | Some a \<Rightarrow>
          (case h a of
             None \<Rightarrow> Inl OutOfBounds
           | Some buf \<Rightarrow>
               if 0 \<le> i \<and> i < int (length buf) then Inr (h(a \<mapsto> buf[nat i := v]))
               else Inl OutOfBounds))"

text \<open>
  Modelled from the spec: \<^verbatim>\<open>zeromem\<close> is a function of the JUCE library, not of this
  repository; the spec has it "zero-fill" the given number of bytes "starting at that
  pointer". The byte count is a multiple of the size of a float at its only call site, so
  the model clears whole samples.
\<close>

definition zeromem :: "heap \<Rightarrow> chan_ptr \<Rightarrow> nat \<Rightarrow> fault + heap" where
  "zeromem h p numBytes =
     (case p of
        None \<Rightarrow> Inl NullPointer
      | Some a \<Rightarrow>
          (case h a of
             None \<Rightarrow> Inl OutOfBounds
           | Some buf \<Rightarrow>
               if numBytes \<le> 4 * length buf
               then Inr (h(a \<mapsto> replicate (numBytes div 4) 0 @ drop (numBytes div 4) buf))
               else Inl OutOfBounds))"

section \<open>The shared flag and the lock\<close>

text \<open>Constructor and destructor of \<^verbatim>\<open>const ScopedLock sl (lock)\<close>.\<close>

definition ScopedLock_enter :: "UnMuter \<Rightarrow> UnMuter" where
  "ScopedLock_enter s = s\<lparr>lock := Suc (lock s)\<rparr>"

definition ScopedLock_exit :: "UnMuter \<Rightarrow> UnMuter" where
  "ScopedLock_exit s = s\<lparr>lock := lock s - 1\<rparr>"

definition read_testIsRunning :: "UnMuter \<Rightarrow> bool \<times> UnMuter" where
  "read_testIsRunning s =
     (testIsRunning s, s\<lparr>journal := journal s @ [(FlagRead, 0 < lock s)]\<rparr>)"

definition write_testIsRunning :: "bool \<Rightarrow> UnMuter \<Rightarrow> UnMuter" where
  "write_testIsRunning v s =
     s\<lparr>testIsRunning := v, journal := journal s @ [(FlagWrite, 0 < lock s)]\<rparr>"

text \<open>Every journalled access happened with the lock held.\<close>

definition lock_protected :: "UnMuter \<Rightarrow> bool" where
  "lock_protected s = list_all snd (journal s)"

section \<open>Construction, toggle and lifecycle hooks\<close>

text \<open>
  \<^verbatim>\<open>UnMuter (TextEditor& editorBox)\<close>; \<^verbatim>\<open>testIsRunning\<close> has the default member
  initialiser \<^verbatim>\<open>false\<close>.
\<close>

definition UnMuter_new :: "string \<Rightarrow> UnMuter" where
  "UnMuter_new editorBox =
     \<lparr>resultsBox = editorBox, lock = 0, testIsRunning = False, journal = []\<rparr>"

text \<open>
  \<^verbatim>\<open>beginTest\<close>. The caret is moved to the end before the insertion, which therefore
  appends. \<^verbatim>\<open>newLine\<close> is a constant of JUCE and a parameter here.
\<close>

definition beginTest :: "string \<Rightarrow> UnMuter \<Rightarrow> bool \<times> UnMuter" where
  "beginTest newLine s =
     (let s1 = s\<lparr>resultsBox := resultsBox s @ newLine @ newLine @ ''Starting test...'' @ newLine\<rparr>;
          (running, s2) = read_testIsRunning s1;
          s3 = (if running then write_testIsRunning False s2 else write_testIsRunning True s2)
      in read_testIsRunning s3)"

definition audioDeviceAboutToStart :: "'device \<Rightarrow> UnMuter \<Rightarrow> UnMuter" where
  "audioDeviceAboutToStart device s = write_testIsRunning False s"

definition audioDeviceStopped :: "UnMuter \<Rightarrow> UnMuter" where
  "audioDeviceStopped s = s"

section \<open>The per-buffer callback\<close>

text \<open>
  The statement of the innermost loop:
  \<^verbatim>\<open>if ((inputChannelData[ich] != nullptr) && (outputChannelData[och] != nullptr))
      outputChannelData[och][i] = inputChannelData[ich][i];\<close>
  The conjunction is short-circuit: the output array is read only when the input pointer
  is not null.
\<close>

definition copy_sample ::
  "chan_ptr list \<Rightarrow> chan_ptr list \<Rightarrow> int \<Rightarrow> int \<Rightarrow> int \<Rightarrow> heap \<Rightarrow> fault + heap" where
  "copy_sample inputChannelData outputChannelData i ich och h =
     (case ptr_at inputChannelData ich of
        Inl e \<Rightarrow> Inl e
      | Inr ip \<Rightarrow>
          if ip = None then Inr h
          else
            (case ptr_at outputChannelData och of
               Inl e \<Rightarrow> Inl e
             | Inr op \<Rightarrow>
                 if op = None then Inr h
                 else
                   (case load h ip i of
                      Inl e \<Rightarrow> Inl e
                    | Inr v \<Rightarrow> store h op i v)))"

text \<open>
  \<^verbatim>\<open>for (auto och = numOutputChannels; --och >= 0;)\<close>: the counter is decremented
  before it is tested, so the channels are visited from \<open>och - 1\<close> down to \<open>0\<close>.
  Decrementing the least \<^verbatim>\<open>int\<close> overflows.
\<close>

function och_loop ::
  "chan_ptr list \<Rightarrow> chan_ptr list \<Rightarrow> int \<Rightarrow> int \<Rightarrow> int \<Rightarrow> heap \<Rightarrow> fault + heap" where
  "och_loop inputChannelData outputChannelData i ich och h =
     (if och = INT_MIN then Inl SignedOverflow
      else
        let och' = och - 1 in
        if 0 \<le> och' then
          (case copy_sample inputChannelData outputChannelData i ich och' h of
             Inl e \<Rightarrow> Inl e
           | Inr h' \<Rightarrow> och_loop inputChannelData outputChannelData i ich och' h')
        else Inr h)"
  by pat_completeness auto
termination
  by (relation "measure (\<lambda>(ins, outs, i, ich, och, h). nat och)") auto

text \<open>\<^verbatim>\<open>for (auto ich = numInputChannels; --ich >= 0;)\<close> around the loop over \<open>och\<close>.\<close>

function ich_loop ::
  "chan_ptr list \<Rightarrow> chan_ptr list \<Rightarrow> int \<Rightarrow> int \<Rightarrow> int \<Rightarrow> heap \<Rightarrow> fault + heap" where
  "ich_loop inputChannelData outputChannelData i ich numOutputChannels h =
     (if ich = INT_MIN then Inl SignedOverflow
      else
        let ich' = ich - 1 in
        if 0 \<le> ich' then
          (case och_loop inputChannelData outputChannelData i ich' numOutputChannels h of
             Inl e \<Rightarrow> Inl e
           | Inr h' \<Rightarrow> ich_loop inputChannelData outputChannelData i ich' numOutputChannels h')
        else Inr h)"
  by pat_completeness auto
termination
  by (relation "measure (\<lambda>(ins, outs, i, ich, nout, h). nat ich)") auto

text \<open>
  \<^verbatim>\<open>for (int i = 0; i < numSamples; ++i)\<close>, started at \<open>i\<close>. The increment cannot
  overflow: \<open>i\<close> is below \<open>numSamples\<close> when it happens.
\<close>

function sample_loop ::
  "chan_ptr list \<Rightarrow> int \<Rightarrow> chan_ptr list \<Rightarrow> int \<Rightarrow> int \<Rightarrow> int \<Rightarrow> heap \<Rightarrow> fault + heap" where
  "sample_loop inputChannelData numInputChannels outputChannelData numOutputChannels numSamples i h =
     (if i < numSamples then
        (case ich_loop inputChannelData outputChannelData i numInputChannels numOutputChannels h of
           Inl e \<Rightarrow> Inl e
         | Inr h' \<Rightarrow>
             sample_loop inputChannelData numInputChannels outputChannelData numOutputChannels
               numSamples (i + 1) h')
      else Inr h)"
  by pat_completeness auto
termination
  by (relation "measure (\<lambda>(ins, nin, outs, nout, n, i, h). nat (n - i))") auto

text \<open>
  The idle branch:
  \<^verbatim>\<open>for (int i = 0; i < numOutputChannels; ++i)
      if (outputChannelData[i] != nullptr)
          zeromem (outputChannelData[i], (size_t) numSamples * sizeof (float));\<close>
  The conversion of the \<^verbatim>\<open>int\<close> \<open>numSamples\<close> to \<^verbatim>\<open>size_t\<close> and the product are
  computed modulo \<open>2 ^ 64\<close>.
\<close>

definition zeromem_size :: "cint \<Rightarrow> nat" where
  "zeromem_size numSamples = unat ((word_of_int (sint numSamples) :: size_t) * sizeof_float)"

function clear_loop :: "chan_ptr list \<Rightarrow> int \<Rightarrow> cint \<Rightarrow> int \<Rightarrow> heap \<Rightarrow> fault + heap" where
  "clear_loop outputChannelData numOutputChannels numSamples i h =
     (if i < numOutputChannels then
        (case ptr_at outputChannelData i of
           Inl e \<Rightarrow> Inl e
         | Inr p \<Rightarrow>
             if p \<noteq> None then
               (case zeromem h p (zeromem_size numSamples) of
                  Inl e \<Rightarrow> Inl e
                | Inr h' \<Rightarrow> clear_loop outputChannelData numOutputChannels numSamples (i + 1) h')
             else clear_loop outputChannelData numOutputChannels numSamples (i + 1) h)
      else Inr h)"
  by pat_completeness auto
termination
  by (relation "measure (\<lambda>(outs, nout, n, i, h). nat (nout - i))") auto

text \<open>
  \<^verbatim>\<open>audioDeviceIOCallbackWithContext\<close>. The scoped lock is taken first and released when
  the function returns; the flag is read once, by the \<^verbatim>\<open>if\<close>. The result is the engine
  and either the store after the call or the fault that stopped it.
\<close>

definition audioDeviceIOCallbackWithContext ::
  "UnMuter \<Rightarrow> chan_ptr list \<Rightarrow> cint \<Rightarrow> chan_ptr list \<Rightarrow> cint \<Rightarrow> cint \<Rightarrow> 'context \<Rightarrow> heap
     \<Rightarrow> UnMuter \<times> (fault + heap)" where
  "audioDeviceIOCallbackWithContext s inputChannelData numInputChannels outputChannelData
       numOutputChannels numSamples context h =
     (let sl = ScopedLock_enter s;
          (running, s') = read_testIsRunning sl;
          r = (if running then
                 sample_loop inputChannelData (sint numInputChannels) outputChannelData
                   (sint numOutputChannels) (sint numSamples) 0 h
               else clear_loop outputChannelData (sint numOutputChannels) numSamples 0 h)
      in (ScopedLock_exit s', r))"

section \<open>The host's side of the contract, and scenario data\<close>

text \<open>
  The spec's data model has a buffer view as an array of per-channel pointers, each null
  or "a valid pointer to \<^verbatim>\<open>numSamples\<close> 32-bit floats", with the two counts beside it.
  Accordingly a channel pointer is usable for \<open>n\<close> samples when it is null or points at a
  buffer of at least \<open>n\<close> samples (a buffer of exactly \<open>n\<close> samples is usable), and a call
  is well formed for an array of channel pointers when the counts are not negative, the
  array holds at least \<open>numChannels\<close> pointers and each of the first \<open>numChannels\<close>
  pointers is usable for \<open>numSamples\<close> samples.
\<close>

definition valid_chan :: "heap \<Rightarrow> nat \<Rightarrow> chan_ptr \<Rightarrow> bool" where
  "valid_chan h n p =
     (case p of
        None \<Rightarrow> True
      | Some a \<Rightarrow> (case h a of None \<Rightarrow> False | Some buf \<Rightarrow> n \<le> length buf))"

definition channels_valid :: "heap \<Rightarrow> chan_ptr list \<Rightarrow> cint \<Rightarrow> cint \<Rightarrow> bool" where
  "channels_valid h channelData numChannels numSamples =
     (0 \<le> sint numChannels \<and> sint numChannels \<le> int (length channelData) \<and>
      0 \<le> sint numSamples \<and>
      list_all (valid_chan h (nat (sint numSamples))) (take (nat (sint numChannels)) channelData))"

text \<open>The patterns of the floats 1.0, 2.0, 3.0 and 9.0.\<close>

definition float_1 :: sample where "float_1 = 0x3F800000"
definition float_2 :: sample where "float_2 = 0x40000000"
definition float_3 :: sample where "float_3 = 0x40400000"
definition float_9 :: sample where "float_9 = 0x41100000"

text \<open>The buffer at an address after a call, when the call returned.\<close>

definition buffer_after :: "fault + heap \<Rightarrow> addr \<Rightarrow> sample list option" where
  "buffer_after r a = (case r of Inl e \<Rightarrow> None | Inr h \<Rightarrow> h a)"

section \<open>The loops as recursion over the channel lists\<close>

text \<open>
  The same three loops, on the pointers already fetched: \<open>copy1\<close> is the statement of the
  innermost loop, \<open>och_list\<close> and \<open>ich_list\<close> visit the pointers of a list from its head,
  \<open>clear_list\<close> is the idle loop. \<open>winner\<close> is the last pointer of a list that is not
  null. \<open>cell\<close> and \<open>shape\<close> read a store by sample and by buffer length.
\<close>

definition copy1 :: "chan_ptr \<Rightarrow> chan_ptr \<Rightarrow> int \<Rightarrow> heap \<Rightarrow> fault + heap" where
  "copy1 ip op i h =
     (if ip = None \<or> op = None then Inr h
      else (case load h ip i of Inl e \<Rightarrow> Inl e | Inr v \<Rightarrow> store h op i v))"

fun och_list :: "chan_ptr \<Rightarrow> chan_ptr list \<Rightarrow> int \<Rightarrow> heap \<Rightarrow> fault + heap" where
  "och_list ip [] i h = Inr h"
| "och_list ip (op # ops) i h =
     (case copy1 ip op i h of Inl e \<Rightarrow> Inl e | Inr h' \<Rightarrow> och_list ip ops i h')"

fun ich_list :: "chan_ptr list \<Rightarrow> chan_ptr list \<Rightarrow> int \<Rightarrow> heap \<Rightarrow> fault + heap" where
  "ich_list [] ops i h = Inr h"
| "ich_list (ip # ips) ops i h =
     (case och_list ip ops i h of Inl e \<Rightarrow> Inl e | Inr h' \<Rightarrow> ich_list ips ops i h')"

fun clear_list :: "chan_ptr list \<Rightarrow> nat \<Rightarrow> heap \<Rightarrow> fault + heap" where
  "clear_list [] numBytes h = Inr h"
| "clear_list (p # ps) numBytes h =
     (if p \<noteq> None then
        (case zeromem h p numBytes of Inl e \<Rightarrow> Inl e | Inr h' \<Rightarrow> clear_list ps numBytes h')
      else clear_list ps numBytes h)"

fun winner :: "chan_ptr list \<Rightarrow> chan_ptr" where
  "winner [] = None"
| "winner (p # ps) = (case winner ps of None \<Rightarrow> p | Some a \<Rightarrow> Some a)"

definition cell :: "heap \<Rightarrow> addr \<Rightarrow> nat \<Rightarrow> sample" where
  "cell h a j = the (h a) ! j"

definition shape :: "heap \<Rightarrow> addr \<Rightarrow> nat option" where
  "shape h a = map_option length (h a)"

text \<open>A channel pointer that is not null.\<close>

definition non_null :: "chan_ptr \<Rightarrow> bool" where
  "non_null p = (p \<noteq> None)"

text \<open>The stores of the scenarios.\<close>

definition fan_in_heap :: heap where
  "fan_in_heap =
     Map.empty(0 \<mapsto> [float_1, float_1], 1 \<mapsto> [float_2, float_2], 2 \<mapsto> [float_9, float_9])"

definition two_chan_heap :: heap where
  "two_chan_heap =
     Map.empty(0 \<mapsto> [float_1, float_2, float_3], 1 \<mapsto> [float_2, float_2, float_2],
       2 \<mapsto> [float_9, float_9, float_9], 3 \<mapsto> [float_9, float_9, float_9, float_9])"

declare och_loop.simps [simp del] ich_loop.simps [simp del] sample_loop.simps [simp del]
  clear_loop.simps [simp del]

section \<open>The state machine of the run flag\<close>

lemma beginTest_flag:
  "fst (beginTest newLine s) = (\<not> testIsRunning s)"
  "testIsRunning (snd (beginTest newLine s)) = (\<not> testIsRunning s)"
  by (simp_all add: beginTest_def read_testIsRunning_def write_testIsRunning_def Let_def)

lemma callback_branch:
  "snd (audioDeviceIOCallbackWithContext s ins nin outs nout n ctx h) =
     (if testIsRunning s then sample_loop ins (sint nin) outs (sint nout) (sint n) 0 h
      else clear_loop outs (sint nout) n 0 h)"
  by (simp add: audioDeviceIOCallbackWithContext_def read_testIsRunning_def
      ScopedLock_enter_def Let_def)

lemma callback_flag:
  "testIsRunning (fst (audioDeviceIOCallbackWithContext s ins nin outs nout n ctx h)) =
     testIsRunning s"
  by (simp add: audioDeviceIOCallbackWithContext_def read_testIsRunning_def
      ScopedLock_enter_def ScopedLock_exit_def Let_def)

section \<open>The loops of the source and the list recursions agree\<close>

lemma copy_sample_copy1:
  "0 \<le> ich \<Longrightarrow> ich < int (length ins) \<Longrightarrow> 0 \<le> och \<Longrightarrow> och < int (length outs) \<Longrightarrow>
   copy_sample ins outs i ich och h = copy1 (ins ! nat ich) (outs ! nat och) i h"
  by (simp add: copy_sample_def copy1_def ptr_at_def)

lemma rev_take_Suc: "k < length xs \<Longrightarrow> rev (take (Suc k) xs) = xs ! k # rev (take k xs)"
  by (simp add: take_Suc_conv_app_nth)

lemma och_loop_list_nat:
  "0 \<le> ich \<Longrightarrow> ich < int (length ins) \<Longrightarrow> k \<le> length outs \<Longrightarrow>
   och_loop ins outs i ich (int k) h = och_list (ins ! nat ich) (rev (take k outs)) i h"
proof (induction k arbitrary: h)
  case 0
  show ?case by (subst och_loop.simps) (simp add: INT_MIN_def Let_def)
next
  case (Suc k)
  have lt: "k < length outs" using Suc.prems by simp
  have "och_loop ins outs i ich (int (Suc k)) h =
        (case copy_sample ins outs i ich (int k) h of Inl e \<Rightarrow> Inl e
         | Inr h' \<Rightarrow> och_loop ins outs i ich (int k) h')"
    by (subst och_loop.simps) (simp add: INT_MIN_def Let_def)
  also have "copy_sample ins outs i ich (int k) h = copy1 (ins ! nat ich) (outs ! k) i h"
    using copy_sample_copy1 [of ich ins "int k" outs i h] Suc.prems lt by simp
  finally show ?case
    using Suc.IH [OF Suc.prems(1) Suc.prems(2)] lt
    by (simp add: rev_take_Suc split: sum.splits)
qed

lemma ich_loop_list_nat:
  "k \<le> length ins \<Longrightarrow> m \<le> length outs \<Longrightarrow>
   ich_loop ins outs i (int k) (int m) h = ich_list (rev (take k ins)) (rev (take m outs)) i h"
proof (induction k arbitrary: h)
  case 0
  show ?case by (subst ich_loop.simps) (simp add: INT_MIN_def Let_def)
next
  case (Suc k)
  have lt: "k < length ins" using Suc.prems by simp
  have "ich_loop ins outs i (int (Suc k)) (int m) h =
        (case och_loop ins outs i (int k) (int m) h of Inl e \<Rightarrow> Inl e
         | Inr h' \<Rightarrow> ich_loop ins outs i (int k) (int m) h')"
    by (subst ich_loop.simps) (simp add: INT_MIN_def Let_def)
  also have "och_loop ins outs i (int k) (int m) h = och_list (ins ! k) (rev (take m outs)) i h"
    using och_loop_list_nat [of "int k" ins m outs i h] lt Suc.prems by simp
  finally show ?case
    using Suc.IH lt Suc.prems
    by (simp add: rev_take_Suc split: sum.splits)
qed

section \<open>What one pass and the whole loop leave in the store\<close>

lemma shape_at: "shape h' = shape h \<Longrightarrow> map_option length (h' a) = map_option length (h a)"
  by (metis shape_def)

lemma valid_chan_shape:
  assumes "shape h' = shape h"
  shows "valid_chan h' n p = valid_chan h n p"
proof (cases p)
  case None
  then show ?thesis by (simp add: valid_chan_def)
next
  case (Some a)
  then show ?thesis
    using shape_at [OF assms, of a]
    by (cases "h a"; cases "h' a") (auto simp: valid_chan_def)
qed

lemma copy1_Some:
  assumes "h a = Some bufa" "h b = Some bufb" "j < length bufa" "j < length bufb"
  shows "copy1 (Some a) (Some b) (int j) h = Inr (h(b \<mapsto> bufb[j := bufa ! j]))"
  using assms by (simp add: copy1_def load_def store_def)

lemma och_list_None: "och_list None ops i h = Inr h"
  by (induction ops) (simp_all add: copy1_def)

lemma och_list_post:
  assumes "h a = Some bufa" "j < length bufa" "j < n"
    and "list_all (valid_chan h n) ops"
  shows "\<exists>h'. och_list (Some a) ops (int j) h = Inr h' \<and> shape h' = shape h \<and>
           (\<forall>b k. cell h' b k =
              (if Some b \<in> set ops \<and> k = j then bufa ! j else cell h b k))"
  using assms
proof (induction ops arbitrary: h bufa)
  case Nil
  then show ?case by simp
next
  case (Cons op ops)
  show ?case
  proof (cases op)
    case None
    then show ?thesis using Cons.IH [of h bufa] Cons.prems
      by (simp add: copy1_def)
  next
    case (Some b)
    from Cons.prems(4) Some obtain bufb where hb: "h b = Some bufb" and lb: "n \<le> length bufb"
      by (auto simp: valid_chan_def split: option.splits)
    define v where "v = bufa ! j"
    define h1 where "h1 = h(b \<mapsto> bufb[j := v])"
    have step: "copy1 (Some a) op (int j) h = Inr h1"
      using copy1_Some [OF Cons.prems(1) hb Cons.prems(2)] lb Cons.prems(3) Some
      by (simp add: h1_def v_def)
    have sh: "shape h1 = shape h"
      using hb by (auto simp: shape_def fun_eq_iff h1_def)
    obtain bufa1 where a1: "h1 a = Some bufa1" and la1: "j < length bufa1"
      and va1: "bufa1 ! j = v"
      using Cons.prems(1,2) hb lb Cons.prems(3) by (cases "a = b") (auto simp: h1_def v_def)
    have valid1: "list_all (valid_chan h1 n) ops"
      using Cons.prems(4) valid_chan_shape [OF sh] by (simp add: list_all_iff)
    obtain h' where r: "och_list (Some a) ops (int j) h1 = Inr h'" and sh': "shape h' = shape h1"
      and cells: "\<forall>c k. cell h' c k =
              (if Some c \<in> set ops \<and> k = j then bufa1 ! j else cell h1 c k)"
      using Cons.IH [OF a1 la1 Cons.prems(3) valid1] by blast
    have c1: "\<And>c k. cell h1 c k = (if c = b \<and> k = j then v else cell h c k)"
      using hb lb Cons.prems(3) by (auto simp: cell_def h1_def)
    have "\<forall>c k. cell h' c k =
              (if Some c \<in> set (op # ops) \<and> k = j then bufa ! j else cell h c k)"
      using cells va1 c1 Some by (auto simp: v_def)
    then show ?thesis
      using step r sh' sh by simp
  qed
qed

lemma ich_list_post:
  assumes "list_all (valid_chan h n) ips" "list_all (valid_chan h n) ops" "j < n"
  shows "\<exists>h'. ich_list ips ops (int j) h = Inr h' \<and> shape h' = shape h \<and>
           (\<forall>b k. Some b \<notin> set ops \<or> k \<noteq> j \<longrightarrow> cell h' b k = cell h b k) \<and>
           (case winner ips of
              None \<Rightarrow> h' = h
            | Some a0 \<Rightarrow> \<forall>b. Some b \<in> set ops \<longrightarrow> cell h' b j = cell h' a0 j)"
  using assms
proof (induction ips arbitrary: h)
  case Nil
  then show ?case by simp
next
  case (Cons ip ips)
  have "\<exists>h1. och_list ip ops (int j) h = Inr h1 \<and> shape h1 = shape h \<and>
          (\<forall>b k. Some b \<notin> set ops \<or> k \<noteq> j \<longrightarrow> cell h1 b k = cell h b k) \<and>
          (case ip of None \<Rightarrow> h1 = h
           | Some a \<Rightarrow> \<forall>b. Some b \<in> set ops \<longrightarrow> cell h1 b j = cell h1 a j)"
  proof (cases ip)
    case None
    then show ?thesis by (simp add: och_list_None)
  next
    case (Some a)
    from Cons.prems(1) Some obtain bufa where ha: "h a = Some bufa" and la: "n \<le> length bufa"
      by (auto simp: valid_chan_def split: option.splits)
    have lj: "j < length bufa" using la Cons.prems(3) by simp
    obtain h1 where r: "och_list (Some a) ops (int j) h = Inr h1" and sh: "shape h1 = shape h"
      and cells: "\<forall>b k. cell h1 b k =
              (if Some b \<in> set ops \<and> k = j then bufa ! j else cell h b k)"
      using och_list_post [OF ha lj Cons.prems(3) Cons.prems(2)] by blast
    have "cell h a j = bufa ! j" using ha by (simp add: cell_def)
    then have "\<forall>b. Some b \<in> set ops \<longrightarrow> cell h1 b j = cell h1 a j"
      using cells by simp
    then show ?thesis using r sh cells Some by simp
  qed
  then obtain h1 where r1: "och_list ip ops (int j) h = Inr h1" and sh1: "shape h1 = shape h"
    and fr1: "\<forall>b k. Some b \<notin> set ops \<or> k \<noteq> j \<longrightarrow> cell h1 b k = cell h b k"
    and w1: "case ip of None \<Rightarrow> h1 = h
           | Some a \<Rightarrow> \<forall>b. Some b \<in> set ops \<longrightarrow> cell h1 b j = cell h1 a j"
    by blast
  have v1: "list_all (valid_chan h1 n) ips" "list_all (valid_chan h1 n) ops"
    using Cons.prems(1,2) valid_chan_shape [OF sh1] by (simp_all add: list_all_iff)
  obtain h' where r: "ich_list ips ops (int j) h1 = Inr h'" and sh: "shape h' = shape h1"
    and fr: "\<forall>b k. Some b \<notin> set ops \<or> k \<noteq> j \<longrightarrow> cell h' b k = cell h1 b k"
    and w: "case winner ips of None \<Rightarrow> h' = h1
            | Some a0 \<Rightarrow> \<forall>b. Some b \<in> set ops \<longrightarrow> cell h' b j = cell h' a0 j"
    using Cons.IH [OF v1 Cons.prems(3)] by blast
  have run: "ich_list (ip # ips) ops (int j) h = Inr h'"
    using r1 r by simp
  have frame: "\<forall>b k. Some b \<notin> set ops \<or> k \<noteq> j \<longrightarrow> cell h' b k = cell h b k"
    using fr fr1 by simp
  have win: "case winner (ip # ips) of None \<Rightarrow> h' = h
            | Some a0 \<Rightarrow> \<forall>b. Some b \<in> set ops \<longrightarrow> cell h' b j = cell h' a0 j"
  proof (cases "winner ips")
    case None
    then have "h' = h1" using w by simp
    then show ?thesis using None w1 by (cases ip) simp_all
  next
    case (Some a0)
    then show ?thesis using w by simp
  qed
  show ?case using run sh sh1 frame win by simp
qed

lemma sample_loop_post:
  assumes "kin \<le> length ins" "kout \<le> length outs"
    and "list_all (valid_chan h n) (take kin ins)" "list_all (valid_chan h n) (take kout outs)"
    and "i \<le> n"
  shows "\<exists>h'. sample_loop ins (int kin) outs (int kout) (int n) (int i) h = Inr h' \<and>
           shape h' = shape h \<and>
           (\<forall>b k. Some b \<notin> set (take kout outs) \<or> k < i \<or> n \<le> k \<longrightarrow> cell h' b k = cell h b k) \<and>
           (case winner (rev (take kin ins)) of
              None \<Rightarrow> h' = h
            | Some a0 \<Rightarrow>
                \<forall>b k. Some b \<in> set (take kout outs) \<and> i \<le> k \<and> k < n \<longrightarrow>
                  cell h' b k = cell h' a0 k)"
  using assms(3-5)
proof (induction "n - i" arbitrary: i h)
  case 0
  then have "i = n" by simp
  then show ?case by (subst sample_loop.simps) (auto split: option.splits)
next
  case (Suc d)
  then have lt: "i < n" by simp
  let ?ips = "rev (take kin ins)" and ?ops = "rev (take kout outs)"
  have v: "list_all (valid_chan h n) ?ips" "list_all (valid_chan h n) ?ops"
    using Suc.prems by (simp_all add: list_all_iff)
  obtain h1 where r1: "ich_list ?ips ?ops (int i) h = Inr h1" and sh1: "shape h1 = shape h"
    and fr1: "\<forall>b k. Some b \<notin> set ?ops \<or> k \<noteq> i \<longrightarrow> cell h1 b k = cell h b k"
    and w1: "case winner ?ips of None \<Rightarrow> h1 = h
            | Some a0 \<Rightarrow> \<forall>b. Some b \<in> set ?ops \<longrightarrow> cell h1 b i = cell h1 a0 i"
    using ich_list_post [OF v lt] by blast
  have pass: "ich_loop ins outs (int i) (int kin) (int kout) h = Inr h1"
    using ich_loop_list_nat [OF assms(1,2)] r1 by simp
  have v1: "list_all (valid_chan h1 n) (take kin ins)" "list_all (valid_chan h1 n) (take kout outs)"
    using Suc.prems(1,2) valid_chan_shape [OF sh1] by (simp_all add: list_all_iff)
  have d: "d = n - Suc i" using Suc.hyps(2) by simp
  have le: "Suc i \<le> n" using lt by simp
  obtain h' where r: "sample_loop ins (int kin) outs (int kout) (int n) (int (Suc i)) h1 = Inr h'"
    and sh: "shape h' = shape h1"
    and fr: "\<forall>b k. Some b \<notin> set (take kout outs) \<or> k < Suc i \<or> n \<le> k \<longrightarrow> cell h' b k = cell h1 b k"
    and w: "case winner ?ips of None \<Rightarrow> h' = h1
            | Some a0 \<Rightarrow>
                \<forall>b k. Some b \<in> set (take kout outs) \<and> Suc i \<le> k \<and> k < n \<longrightarrow>
                  cell h' b k = cell h' a0 k"
    using Suc.hyps(1) [OF d v1 le] by blast
  have run: "sample_loop ins (int kin) outs (int kout) (int n) (int i) h = Inr h'"
    using pass r lt by (subst sample_loop.simps) (simp add: add.commute)
  have frame: "\<forall>b k. Some b \<notin> set (take kout outs) \<or> k < i \<or> n \<le> k \<longrightarrow> cell h' b k = cell h b k"
    using fr fr1 lt by auto
  have win: "case winner ?ips of None \<Rightarrow> h' = h
            | Some a0 \<Rightarrow>
                \<forall>b k. Some b \<in> set (take kout outs) \<and> i \<le> k \<and> k < n \<longrightarrow>
                  cell h' b k = cell h' a0 k"
  proof (cases "winner ?ips")
    case None
    then show ?thesis using w w1 by simp
  next
    case (Some a0)
    have at_i: "cell h' b i = cell h' a0 i" if "Some b \<in> set (take kout outs)" for b
    proof -
      have "cell h' b i = cell h1 b i" using fr by simp
      also have "\<dots> = cell h1 a0 i" using w1 Some that by simp
      also have "\<dots> = cell h' a0 i" using fr by simp
      finally show ?thesis .
    qed
    have later: "cell h' b k = cell h' a0 k"
      if "Some b \<in> set (take kout outs)" "Suc i \<le> k" "k < n" for b k
      using w Some that by simp
    have "cell h' b k = cell h' a0 k" if "Some b \<in> set (take kout outs)" "i \<le> k" "k < n" for b k
      using at_i [OF that(1)] later [OF that(1)] that(2,3) by (cases "k = i") auto
    then show ?thesis using Some by simp
  qed
  show ?case using run sh sh1 frame win by simp
qed

section \<open>The idle loop\<close>

lemma clear_loop_list_nat:
  assumes "kout \<le> length outs" "i \<le> kout"
  shows "clear_loop outs (int kout) n (int i) h =
         clear_list (drop i (take kout outs)) (zeromem_size n) h"
  using assms(2)
proof (induction "kout - i" arbitrary: i h)
  case 0
  then have "i = kout" by simp
  then show ?case by (subst clear_loop.simps) simp
next
  case (Suc d)
  then have lt: "i < kout" by simp
  have d: "d = kout - Suc i" using Suc.hyps(2) by simp
  have le: "Suc i \<le> kout" using lt by simp
  have dr: "drop i (take kout outs) = outs ! i # drop (Suc i) (take kout outs)"
    using lt assms(1) by (simp add: Cons_nth_drop_Suc [symmetric])
  have p: "ptr_at outs (int i) = Inr (outs ! i)"
    using lt assms(1) by (simp add: ptr_at_def)
  show ?case
    using Suc.hyps(1) [OF d le] lt p
    by (subst clear_loop.simps) (simp add: dr add.commute split: sum.splits)
qed

lemma zeromem_size_nonneg:
  assumes "0 \<le> sint n"
  shows "zeromem_size n = 4 * nat (sint n)"
proof -
  define k where "k = nat (sint n)"
  have "sint n < 2 ^ 31" using sint_lt [of n] by simp
  then have b: "k * 4 < 2 ^ 64" using assms by (simp add: k_def)
  have "(word_of_int (sint n) :: size_t) = of_nat k"
    using assms by (simp add: k_def)
  then have "(word_of_int (sint n) :: size_t) * sizeof_float = of_nat (k * 4)"
    by (simp add: sizeof_float_def)
  then have "zeromem_size n = unat (of_nat (k * 4) :: size_t)"
    by (simp only: zeromem_size_def)
  also have "\<dots> = (k * 4) mod 2 ^ LENGTH(64)"
    by (rule unat_of_nat)
  also have "\<dots> = k * 4"
    using b by simp
  finally show ?thesis by (simp add: k_def)
qed

lemma zeromem_Some:
  assumes "h b = Some buf" "m \<le> length buf"
  shows "zeromem h (Some b) (4 * m) = Inr (h(b \<mapsto> replicate m 0 @ drop m buf))"
  using assms by (simp add: zeromem_def)

lemma clear_list_post:
  assumes "list_all (valid_chan h m) ops"
  shows "\<exists>h'. clear_list ops (4 * m) h = Inr h' \<and> shape h' = shape h \<and>
           (\<forall>b k. cell h' b k = (if Some b \<in> set ops \<and> k < m then 0 else cell h b k))"
  using assms
proof (induction ops arbitrary: h)
  case Nil
  then show ?case by simp
next
  case (Cons op ops)
  show ?case
  proof (cases op)
    case None
    then show ?thesis using Cons.IH [of h] Cons.prems by simp
  next
    case (Some b)
    from Cons.prems Some obtain buf where hb: "h b = Some buf" and lb: "m \<le> length buf"
      by (auto simp: valid_chan_def split: option.splits)
    define h1 where "h1 = h(b \<mapsto> replicate m 0 @ drop m buf)"
    have step: "zeromem h op (4 * m) = Inr h1"
      using zeromem_Some [of h b buf m] hb lb Some by (simp add: h1_def)
    have sh: "shape h1 = shape h"
      using hb lb by (auto simp: shape_def fun_eq_iff h1_def)
    have valid1: "list_all (valid_chan h1 m) ops"
      using Cons.prems valid_chan_shape [OF sh] by (simp add: list_all_iff)
    obtain h' where r: "clear_list ops (4 * m) h1 = Inr h'" and sh': "shape h' = shape h1"
      and cells: "\<forall>c k. cell h' c k = (if Some c \<in> set ops \<and> k < m then 0 else cell h1 c k)"
      using Cons.IH [OF valid1] by blast
    have c1: "\<And>c k. cell h1 c k = (if c = b \<and> k < m then 0 else cell h c k)"
      using hb lb by (auto simp: cell_def h1_def nth_append)
    have "\<forall>c k. cell h' c k = (if Some c \<in> set (op # ops) \<and> k < m then 0 else cell h c k)"
      using cells c1 Some by auto
    then show ?thesis
      using step r sh' sh Some by simp
  qed
qed

section \<open>The idle branch and the run flag\<close>

lemma in_take_iff: "k \<le> length xs \<Longrightarrow> (x \<in> set (take k xs)) = (\<exists>j<k. xs ! j = x)"
  by (auto simp: in_set_conv_nth)

lemma shape_SomeD:
  assumes "shape h' = shape h" "h b = Some buf"
  shows "\<exists>buf'. h' b = Some buf' \<and> length buf' = length buf"
proof -
  have "map_option length (h' b) = map_option length (h b)"
    using assms(1) by (metis shape_def)
  then show ?thesis using assms(2) by (cases "h' b") auto
qed

lemma idle_post:
  assumes "channels_valid h outs nout n"
  shows "\<exists>h'. clear_loop outs (sint nout) n 0 h = Inr h' \<and> shape h' = shape h \<and>
           (\<forall>b k. cell h' b k =
              (if (\<exists>och<nat (sint nout). outs ! och = Some b) \<and> k < nat (sint n) then 0
               else cell h b k))"
proof -
  define kout where "kout = nat (sint nout)"
  define m where "m = nat (sint n)"
  have k: "sint nout = int kout" "kout \<le> length outs" and n0: "0 \<le> sint n"
    and v: "list_all (valid_chan h m) (take kout outs)"
    using assms by (auto simp: channels_valid_def kout_def m_def)
  have "clear_loop outs (sint nout) n 0 h = clear_list (take kout outs) (4 * m) h"
    using clear_loop_list_nat [OF k(2), of 0 n h] k(1) zeromem_size_nonneg [OF n0]
    by (simp add: m_def)
  then show ?thesis
    using clear_list_post [OF v] in_take_iff [OF k(2)] by (simp add: kout_def m_def)
qed

lemma idle_zero_filled:
  assumes "channels_valid h outs nout n"
  shows "\<exists>h'. clear_loop outs (sint nout) n 0 h = Inr h' \<and>
           (\<forall>och b. och < nat (sint nout) \<and> outs ! och = Some b \<longrightarrow>
              (\<exists>buf. h' b = Some buf \<and> nat (sint n) \<le> length buf \<and>
                 (\<forall>i<nat (sint n). buf ! i = 0)))"
proof -
  obtain h' where r: "clear_loop outs (sint nout) n 0 h = Inr h'" and sh: "shape h' = shape h"
    and cells: "\<forall>b k. cell h' b k =
              (if (\<exists>och<nat (sint nout). outs ! och = Some b) \<and> k < nat (sint n) then 0
               else cell h b k)"
    using idle_post [OF assms] by blast
  have "\<exists>buf. h' b = Some buf \<and> nat (sint n) \<le> length buf \<and> (\<forall>i<nat (sint n). buf ! i = 0)"
    if och: "och < nat (sint nout)" "outs ! och = Some b" for och b
  proof -
    have "Some b \<in> set (take (nat (sint nout)) outs)"
      using och assms in_take_iff [of "nat (sint nout)" outs "Some b"]
      by (auto simp: channels_valid_def)
    then have "valid_chan h (nat (sint n)) (Some b)"
      using assms by (auto simp: channels_valid_def list_all_iff)
    then obtain buf0 where b0: "h b = Some buf0" "nat (sint n) \<le> length buf0"
      by (auto simp: valid_chan_def split: option.splits)
    obtain buf where b: "h' b = Some buf" "length buf = length buf0"
      using shape_SomeD [OF sh b0(1)] by blast
    have "buf ! i = 0" if "i < nat (sint n)" for i
    proof -
      have "cell h' b i = 0" using cells och that by auto
      then show ?thesis using b(1) by (simp add: cell_def)
    qed
    then show ?thesis using b b0(2) by simp
  qed
  then show ?thesis using r by blast
qed

text \<open>
  Outside the contract: with a negative \<open>numSamples\<close> the byte count handed to
  \<^verbatim>\<open>zeromem\<close> wraps around to almost \<open>2 ^ 64\<close>, and the idle loop runs off the end of
  the first output buffer that is not null.
\<close>

lemma zeromem_size_negative: "zeromem_size (- 1) = 2 ^ 64 - 4"
  by (simp add: zeromem_size_def sizeof_float_def)

lemma idle_negative_numSamples:
  "snd (audioDeviceIOCallbackWithContext (UnMuter_new []) [] 0 [Some 2] 1 (- 1) ()
          two_chan_heap) = Inl OutOfBounds"
  by (simp add: callback_branch UnMuter_new_def clear_loop.simps ptr_at_def zeromem_def
      zeromem_size_def sizeof_float_def two_chan_heap_def)

text \<open>
  C2 (idle silence). While the run flag is false, a call that is well formed for the
  output channels returns, and afterwards the first \<open>numSamples\<close> samples of every
  output channel that is not null are \<open>0\<close>, whatever the store held before and whatever
  the input channels are.
\<close>

theorem idle_silence:
  assumes "\<not> testIsRunning s"
    and "channels_valid h outputChannelData numOutputChannels numSamples"
  shows "\<exists>h'. snd (audioDeviceIOCallbackWithContext s inputChannelData numInputChannels
                  outputChannelData numOutputChannels numSamples context h) = Inr h' \<and>
           (\<forall>och b. och < nat (sint numOutputChannels) \<and> outputChannelData ! och = Some b \<longrightarrow>
              (\<exists>buf. h' b = Some buf \<and> nat (sint numSamples) \<le> length buf \<and>
                 (\<forall>i<nat (sint numSamples). buf ! i = 0)))"
  using idle_zero_filled [OF assms(2)] assms(1) by (simp add: callback_branch)

theorem idle_silence_witness:
  "\<not> testIsRunning (UnMuter_new []) \<and>
   channels_valid (Map.empty(0 \<mapsto> [float_1, float_2, float_3], 1 \<mapsto> [float_9, float_9, float_9]))
     [Some 1, None] 2 3 \<and>
   (\<exists>h'. snd (audioDeviceIOCallbackWithContext (UnMuter_new []) [Some 0] 1 [Some 1, None] 2 3 ()
              (Map.empty(0 \<mapsto> [float_1, float_2, float_3], 1 \<mapsto> [float_9, float_9, float_9])))
            = Inr h' \<and>
      (\<forall>och b. och < nat (sint (2 :: cint)) \<and> [Some 1, None] ! och = Some b \<longrightarrow>
         (\<exists>buf. h' b = Some buf \<and> nat (sint (3 :: cint)) \<le> length buf \<and>
            (\<forall>i<nat (sint (3 :: cint)). buf ! i = 0))))"
proof -
  have idle: "\<not> testIsRunning (UnMuter_new [])"
    by (simp add: UnMuter_new_def)
  have ok: "channels_valid
      (Map.empty(0 \<mapsto> [float_1, float_2, float_3], 1 \<mapsto> [float_9, float_9, float_9]))
      [Some 1, None] 2 3"
    by (simp add: channels_valid_def valid_chan_def)
  show ?thesis
    using idle ok idle_silence [OF idle ok, of "[Some 0]" 1 "()"] by simp
qed


text \<open>
  C4 (device start resets to idle). From every engine state, and in particular from the
  active state that \<open>beginTest\<close> reaches from an idle one, \<open>audioDeviceAboutToStart\<close>
  leaves the run flag false, and the next callback runs the idle loop, with no call of
  \<open>beginTest\<close> in between.
\<close>

theorem device_start_resets_to_idle:
  "\<not> testIsRunning (audioDeviceAboutToStart device s) \<and>
   testIsRunning (snd (beginTest newLine (s\<lparr>testIsRunning := False\<rparr>))) \<and>
   \<not> testIsRunning
       (audioDeviceAboutToStart device (snd (beginTest newLine (s\<lparr>testIsRunning := False\<rparr>)))) \<and>
   snd (audioDeviceIOCallbackWithContext (audioDeviceAboutToStart device s) inputChannelData
          numInputChannels outputChannelData numOutputChannels numSamples context h) =
     clear_loop outputChannelData (sint numOutputChannels) numSamples 0 h"
  by (simp add: callback_branch beginTest_flag audioDeviceAboutToStart_def
      write_testIsRunning_def)

text \<open>
  C5 (toggle flips and reports state). \<open>beginTest\<close> always negates the run flag and
  returns the new value. From an idle state it returns true and the callback then runs
  the copying loops; a second \<open>beginTest\<close> returns false and the callback then runs the
  idle loop. A callback leaves the flag as it is, so every later callback takes the same
  branch.
\<close>

theorem beginTest_toggles:
  "fst (beginTest newLine s) = (\<not> testIsRunning s) \<and>
   testIsRunning (snd (beginTest newLine s)) = (\<not> testIsRunning s) \<and>
   fst (beginTest newLine (s\<lparr>testIsRunning := False\<rparr>)) \<and>
   snd (audioDeviceIOCallbackWithContext (snd (beginTest newLine (s\<lparr>testIsRunning := False\<rparr>)))
          inputChannelData numInputChannels outputChannelData numOutputChannels numSamples
          context h) =
     sample_loop inputChannelData (sint numInputChannels) outputChannelData
       (sint numOutputChannels) (sint numSamples) 0 h \<and>
   \<not> fst (beginTest newLine (snd (beginTest newLine (s\<lparr>testIsRunning := False\<rparr>)))) \<and>
   snd (audioDeviceIOCallbackWithContext
          (snd (beginTest newLine (snd (beginTest newLine (s\<lparr>testIsRunning := False\<rparr>)))))
          inputChannelData numInputChannels outputChannelData numOutputChannels numSamples
          context h) =
     clear_loop outputChannelData (sint numOutputChannels) numSamples 0 h \<and>
   testIsRunning
     (fst (audioDeviceIOCallbackWithContext s inputChannelData numInputChannels
             outputChannelData numOutputChannels numSamples context h)) = testIsRunning s"
  by (simp add: callback_branch callback_flag beginTest_flag)

text \<open>
  C7 (lock-protected shared flag). The claim does not hold of \<open>beginTest\<close>: on a fresh
  engine it reads the flag, writes it and reads it again, each time without holding the
  lock. \<open>audioDeviceAboutToStart\<close> also writes the flag without the lock. Only the callback
  reads the flag under the lock.
\<close>

theorem beginTest_flag_unguarded:
  "journal (snd (beginTest newLine (UnMuter_new editorBox))) =
     [(FlagRead, False), (FlagWrite, False), (FlagRead, False)] \<and>
   \<not> lock_protected (snd (beginTest newLine (UnMuter_new editorBox))) \<and>
   journal (audioDeviceAboutToStart device (UnMuter_new editorBox)) = [(FlagWrite, False)] \<and>
   journal (fst (audioDeviceIOCallbackWithContext (UnMuter_new editorBox) inputChannelData
                   numInputChannels outputChannelData numOutputChannels numSamples context h)) =
     [(FlagRead, True)]"
  by (simp add: beginTest_def audioDeviceAboutToStart_def audioDeviceIOCallbackWithContext_def
      read_testIsRunning_def write_testIsRunning_def ScopedLock_enter_def ScopedLock_exit_def
      UnMuter_new_def lock_protected_def Let_def)

text \<open>
  C8 (initial state is idle). A freshly constructed engine has the run flag false; its
  first callback runs the idle loop, and when the call is well formed for the output
  channels it returns with the first \<open>numSamples\<close> samples of every output channel that is
  not null equal to \<open>0\<close>.
\<close>

theorem fresh_engine_idle:
  "\<not> testIsRunning (UnMuter_new editorBox) \<and>
   snd (audioDeviceIOCallbackWithContext (UnMuter_new editorBox) inputChannelData
          numInputChannels outputChannelData numOutputChannels numSamples context h) =
     clear_loop outputChannelData (sint numOutputChannels) numSamples 0 h \<and>
   (channels_valid h outputChannelData numOutputChannels numSamples \<longrightarrow>
      (\<exists>h'. snd (audioDeviceIOCallbackWithContext (UnMuter_new editorBox) inputChannelData
                   numInputChannels outputChannelData numOutputChannels numSamples context h) =
               Inr h' \<and>
         (\<forall>och b. och < nat (sint numOutputChannels) \<and> outputChannelData ! och = Some b \<longrightarrow>
            (\<exists>buf. h' b = Some buf \<and> nat (sint numSamples) \<le> length buf \<and>
               (\<forall>i<nat (sint numSamples). buf ! i = 0)))))"
proof -
  have fresh: "\<not> testIsRunning (UnMuter_new editorBox)"
    by (simp add: UnMuter_new_def)
  then show ?thesis
    using idle_zero_filled [of h outputChannelData numOutputChannels numSamples]
    by (simp add: callback_branch)
qed

theorem fresh_engine_idle_witness:
  "channels_valid (Map.empty(7 \<mapsto> [float_9, float_9])) [None, Some 7] 2 2 \<and>
   \<not> testIsRunning (UnMuter_new ''text'') \<and>
   (\<exists>h'. snd (audioDeviceIOCallbackWithContext (UnMuter_new ''text'') [] 0 [None, Some 7] 2 2 ()
              (Map.empty(7 \<mapsto> [float_9, float_9]))) = Inr h' \<and>
      (\<forall>och b. och < nat (sint (2 :: cint)) \<and> [None, Some 7] ! och = Some b \<longrightarrow>
         (\<exists>buf. h' b = Some buf \<and> nat (sint (2 :: cint)) \<le> length buf \<and>
            (\<forall>i<nat (sint (2 :: cint)). buf ! i = 0))))"
proof -
  have ok: "channels_valid (Map.empty(7 \<mapsto> [float_9, float_9])) [None, Some 7] 2 2"
    by (simp add: channels_valid_def valid_chan_def)
  show ?thesis
    using ok fresh_engine_idle [of "''text''" "[]" 0 "[None, Some 7]" 2 2 "()"
        "Map.empty(7 \<mapsto> [float_9, float_9])"]
    by blast
qed

section \<open>The copying loops: what the store holds afterwards\<close>

lemma winner_snoc: "winner (ps @ [p]) = (if p = None then winner ps else p)"
  by (induction ps) (auto split: option.splits)

lemma winner_rev_lowest:
  "ich0 < length xs \<Longrightarrow> xs ! ich0 = Some a0 \<Longrightarrow> \<forall>k<ich0. xs ! k = None \<Longrightarrow>
   winner (rev xs) = Some a0"
proof (induction xs arbitrary: ich0)
  case Nil
  then show ?case by simp
next
  case (Cons x xs)
  show ?case
  proof (cases ich0)
    case 0
    then show ?thesis using Cons.prems by (simp add: winner_snoc)
  next
    case (Suc j)
    have "x = None" using Cons.prems(3) Suc by auto
    moreover have "\<forall>k<j. xs ! k = None"
    proof (intro allI impI)
      fix k assume "k < j"
      then have "(x # xs) ! Suc k = None" using Cons.prems(3) Suc by blast
      then show "xs ! k = None" by simp
    qed
    then have "winner (rev xs) = Some a0"
      using Cons.IH [of j] Cons.prems(1,2) Suc by simp
    ultimately show ?thesis by (simp add: winner_snoc)
  qed
qed

lemma heap_at_eqI:
  assumes "shape h' = shape h" and "\<And>k. cell h' a k = cell h a k"
  shows "h' a = h a"
proof (cases "h a")
  case None
  have "map_option length (h' a) = map_option length (h a)"
    using assms(1) by (metis shape_def)
  then show ?thesis using None by simp
next
  case (Some buf)
  obtain buf' where b': "h' a = Some buf'" and len: "length buf' = length buf"
    using shape_SomeD [OF assms(1) Some] by blast
  have "\<And>k. buf' ! k = buf ! k"
    using assms(2) Some b' by (simp add: cell_def)
  then have "buf' = buf" using len by (simp add: list_eq_iff_nth_eq)
  then show ?thesis using Some b' by simp
qed

lemma active_post:
  assumes "channels_valid h ins nin n" "channels_valid h outs nout n"
  shows "\<exists>h'. sample_loop ins (sint nin) outs (sint nout) (sint n) 0 h = Inr h' \<and>
           shape h' = shape h \<and>
           (\<forall>b k. \<not> (\<exists>och<nat (sint nout). outs ! och = Some b) \<or> nat (sint n) \<le> k \<longrightarrow>
              cell h' b k = cell h b k) \<and>
           (case winner (rev (take (nat (sint nin)) ins)) of
              None \<Rightarrow> h' = h
            | Some a0 \<Rightarrow>
                \<forall>b k. (\<exists>och<nat (sint nout). outs ! och = Some b) \<and> k < nat (sint n) \<longrightarrow>
                  cell h' b k = cell h' a0 k)"
proof -
  define kin where "kin = nat (sint nin)"
  define kout where "kout = nat (sint nout)"
  define m where "m = nat (sint n)"
  have k: "sint nin = int kin" "kin \<le> length ins" "sint nout = int kout" "kout \<le> length outs"
    "sint n = int m"
    and v: "list_all (valid_chan h m) (take kin ins)" "list_all (valid_chan h m) (take kout outs)"
    using assms by (auto simp: channels_valid_def kin_def kout_def m_def)
  obtain h' where r: "sample_loop ins (int kin) outs (int kout) (int m) (int 0) h = Inr h'"
    and sh: "shape h' = shape h"
    and fr: "\<forall>b k. Some b \<notin> set (take kout outs) \<or> k < 0 \<or> m \<le> k \<longrightarrow> cell h' b k = cell h b k"
    and w: "case winner (rev (take kin ins)) of
              None \<Rightarrow> h' = h
            | Some a0 \<Rightarrow>
                \<forall>b k. Some b \<in> set (take kout outs) \<and> 0 \<le> k \<and> k < m \<longrightarrow>
                  cell h' b k = cell h' a0 k"
    using sample_loop_post [OF k(2) k(4) v, of 0] by blast
  have mem: "\<And>b. (Some b \<in> set (take kout outs)) = (\<exists>och<kout. outs ! och = Some b)"
    using in_take_iff [OF k(4)] by simp
  have fr': "\<forall>b k. \<not> (\<exists>och<kout. outs ! och = Some b) \<or> m \<le> k \<longrightarrow> cell h' b k = cell h b k"
    using fr mem by simp
  have w': "case winner (rev (take kin ins)) of
              None \<Rightarrow> h' = h
            | Some a0 \<Rightarrow>
                \<forall>b k. (\<exists>och<kout. outs ! och = Some b) \<and> k < m \<longrightarrow>
                  cell h' b k = cell h' a0 k"
  proof (cases "winner (rev (take kin ins))")
    case None
    then show ?thesis using w by simp
  next
    case (Some a0)
    then show ?thesis using w mem by simp
  qed
  have r': "sample_loop ins (sint nin) outs (sint nout) (sint n) 0 h = Inr h'"
    using r k(1,3,5) by simp
  show ?thesis
    unfolding kin_def [symmetric] kout_def [symmetric] m_def [symmetric]
    using r' sh fr' w' by blast
qed

lemma channels_validD:
  assumes "channels_valid h chans cnt n" "k < nat (sint cnt)" "chans ! k = Some a"
  shows "\<exists>buf. h a = Some buf \<and> nat (sint n) \<le> length buf"
proof -
  have le: "nat (sint cnt) \<le> length chans"
    using assms(1) by (auto simp: channels_valid_def)
  have "Some a \<in> set (take (nat (sint cnt)) chans)"
    using in_take_iff [OF le, of "Some a"] assms(2,3) by blast
  then have "valid_chan h (nat (sint n)) (Some a)"
    using assms(1) by (auto simp: channels_valid_def list_all_iff)
  then show ?thesis
    by (auto simp: valid_chan_def split: option.splits)
qed

lemma active_lowest:
  assumes "channels_valid h ins nin n" "channels_valid h outs nout n"
    and "ich0 < nat (sint nin)" "ins ! ich0 = Some a0" "\<forall>ich<ich0. ins ! ich = None"
  shows "\<exists>h'. sample_loop ins (sint nin) outs (sint nout) (sint n) 0 h = Inr h' \<and>
           shape h' = shape h \<and>
           (\<forall>och b k. och < nat (sint nout) \<and> outs ! och = Some b \<and> k < nat (sint n) \<longrightarrow>
              cell h' b k = cell h' a0 k) \<and>
           ((\<forall>och<nat (sint nout). outs ! och \<noteq> Some a0) \<longrightarrow> h' a0 = h a0)"
proof -
  let ?xs = "take (nat (sint nin)) ins"
  have "winner (rev ?xs) = Some a0"
  proof (rule winner_rev_lowest [of ich0])
    show "ich0 < length ?xs"
      using assms(1,3) by (auto simp: channels_valid_def)
    show "?xs ! ich0 = Some a0" using assms(3,4) by simp
    show "\<forall>k<ich0. ?xs ! k = None" using assms(3,5) by simp
  qed
  then obtain h' where r: "sample_loop ins (sint nin) outs (sint nout) (sint n) 0 h = Inr h'"
    and sh: "shape h' = shape h"
    and fr: "\<forall>b k. \<not> (\<exists>och<nat (sint nout). outs ! och = Some b) \<or> nat (sint n) \<le> k \<longrightarrow>
              cell h' b k = cell h b k"
    and w: "\<forall>b k. (\<exists>och<nat (sint nout). outs ! och = Some b) \<and> k < nat (sint n) \<longrightarrow>
                  cell h' b k = cell h' a0 k"
    using active_post [OF assms(1,2)] by auto
  have "h' a0 = h a0" if "\<forall>och<nat (sint nout). outs ! och \<noteq> Some a0"
  proof (rule heap_at_eqI [OF sh])
    fix k show "cell h' a0 k = cell h a0 k" using fr that by blast
  qed
  then show ?thesis using r sh w by blast
qed

lemma och_loop_null:
  "0 \<le> ich \<Longrightarrow> ich < int (length ins) \<Longrightarrow> ins ! nat ich = None \<Longrightarrow>
   och_loop ins outs i ich (int k) h = Inr h"
proof (induction k)
  case 0
  show ?case by (subst och_loop.simps) (simp add: INT_MIN_def Let_def)
next
  case (Suc k)
  have "copy_sample ins outs i ich (int k) h = Inr h"
    using Suc.prems by (simp add: copy_sample_def ptr_at_def)
  then show ?case
    using Suc by (subst och_loop.simps) (simp add: INT_MIN_def Let_def)
qed

lemma ich_loop_null:
  "kin \<le> length ins \<Longrightarrow> \<forall>k<kin. ins ! k = None \<Longrightarrow>
   ich_loop ins outs i (int kin) (int kout) h = Inr h"
proof (induction kin)
  case 0
  show ?case by (subst ich_loop.simps) (simp add: INT_MIN_def Let_def)
next
  case (Suc k)
  have "och_loop ins outs i (int k) (int kout) h = Inr h"
    using och_loop_null [of "int k" ins outs i kout h] Suc.prems by simp
  then show ?case
    using Suc by (subst ich_loop.simps) (simp add: INT_MIN_def Let_def)
qed

lemma sample_loop_id:
  assumes "\<And>j. i \<le> j \<Longrightarrow> j < n \<Longrightarrow> ich_loop ins outs j nin nout h = Inr h"
  shows "sample_loop ins nin outs nout n i h = Inr h"
  using assms
proof (induction "nat (n - i)" arbitrary: i)
  case 0
  then show ?case by (subst sample_loop.simps) simp
next
  case (Suc d)
  have lt: "i < n" using Suc.hyps(2) by simp
  have "sample_loop ins nin outs nout n (i + 1) h = Inr h"
  proof (rule Suc.hyps(1))
    show "d = nat (n - (i + 1))" using Suc.hyps(2) by simp
    show "\<And>j. i + 1 \<le> j \<Longrightarrow> j < n \<Longrightarrow> ich_loop ins outs j nin nout h = Inr h"
      using Suc.prems by simp
  qed
  then show ?case
    using Suc.prems [of i] lt by (subst sample_loop.simps) simp
qed

text \<open>
  C9 (lowest-index input wins). With the run flag true, in a call that is well formed for
  the input and the output channels, let \<open>ich0\<close> be the least index of an input pointer
  that is not null and \<open>a0\<close> the buffer it points at. The call returns, and afterwards the
  first \<open>numSamples\<close> samples of every output channel that is not null equal those of
  \<open>a0\<close>. When \<open>a0\<close> is not itself one of the output buffers it is left as it was, so the
  outputs hold the samples the input channel had on entry.
\<close>

theorem lowest_input_wins:
  assumes "testIsRunning s"
    and "channels_valid h inputChannelData numInputChannels numSamples"
    and "channels_valid h outputChannelData numOutputChannels numSamples"
    and "ich0 < nat (sint numInputChannels)" and "inputChannelData ! ich0 = Some a0"
    and "\<forall>ich<ich0. inputChannelData ! ich = None"
  shows "\<exists>h' in'. snd (audioDeviceIOCallbackWithContext s inputChannelData numInputChannels
                  outputChannelData numOutputChannels numSamples context h) = Inr h' \<and>
           h' a0 = Some in' \<and>
           (\<forall>och b. och < nat (sint numOutputChannels) \<and> outputChannelData ! och = Some b \<longrightarrow>
              (\<exists>out'. h' b = Some out' \<and> (\<forall>i<nat (sint numSamples). out' ! i = in' ! i))) \<and>
           ((\<forall>och<nat (sint numOutputChannels). outputChannelData ! och \<noteq> Some a0) \<longrightarrow>
              h a0 = Some in')"
proof -
  obtain h' where r: "sample_loop inputChannelData (sint numInputChannels) outputChannelData
        (sint numOutputChannels) (sint numSamples) 0 h = Inr h'"
    and sh: "shape h' = shape h"
    and w: "\<forall>och b k. och < nat (sint numOutputChannels) \<and> outputChannelData ! och = Some b \<and>
              k < nat (sint numSamples) \<longrightarrow> cell h' b k = cell h' a0 k"
    and keep: "(\<forall>och<nat (sint numOutputChannels). outputChannelData ! och \<noteq> Some a0) \<longrightarrow>
              h' a0 = h a0"
    using active_lowest [OF assms(2-6)] by blast
  obtain in0 where "h a0 = Some in0"
    using channels_validD [OF assms(2,4,5)] by blast
  then obtain in' where in': "h' a0 = Some in'"
    using shape_SomeD [OF sh] by blast
  have outs: "\<exists>out'. h' b = Some out' \<and> (\<forall>i<nat (sint numSamples). out' ! i = in' ! i)"
    if och: "och < nat (sint numOutputChannels)" "outputChannelData ! och = Some b" for och b
  proof -
    obtain out0 where "h b = Some out0"
      using channels_validD [OF assms(3) och] by blast
    then obtain out' where out': "h' b = Some out'"
      using shape_SomeD [OF sh] by blast
    have "out' ! i = in' ! i" if "i < nat (sint numSamples)" for i
    proof -
      have "cell h' b i = cell h' a0 i" using w och that by blast
      then show ?thesis using out' in' by (simp add: cell_def)
    qed
    then show ?thesis using out' by simp
  qed
  have run: "snd (audioDeviceIOCallbackWithContext s inputChannelData numInputChannels
                  outputChannelData numOutputChannels numSamples context h) = Inr h'"
    using r assms(1) by (simp add: callback_branch)
  show ?thesis
    using run in' outs keep by (intro exI [of _ h'] exI [of _ in']) auto
qed

theorem lowest_input_wins_witness:
  "testIsRunning (snd (beginTest [] (UnMuter_new []))) \<and>
   channels_valid two_chan_heap [None, Some 0, Some 1] 3 3 \<and>
   channels_valid two_chan_heap [Some 2, None, Some 3] 3 3 \<and>
   (1 :: nat) < nat (sint (3 :: cint)) \<and> [None, Some 0, Some 1] ! 1 = Some (0 :: addr) \<and>
   [None, Some 0, Some (1 :: addr)] ! 0 = None \<and>
   (\<exists>h' in'. snd (audioDeviceIOCallbackWithContext (snd (beginTest [] (UnMuter_new [])))
                    [None, Some 0, Some 1] 3 [Some 2, None, Some 3] 3 3 () two_chan_heap) =
                Inr h' \<and>
      h' 0 = Some in' \<and>
      (\<forall>och b. och < nat (sint (3 :: cint)) \<and> [Some 2, None, Some 3] ! och = Some b \<longrightarrow>
         (\<exists>out'. h' b = Some out' \<and> (\<forall>i<nat (sint (3 :: cint)). out' ! i = in' ! i))) \<and>
      ((\<forall>och<nat (sint (3 :: cint)). [Some 2, None, Some 3] ! och \<noteq> Some (0 :: addr)) \<longrightarrow>
         two_chan_heap 0 = Some in'))"
proof -
  have on: "testIsRunning (snd (beginTest [] (UnMuter_new [])))"
    by (simp add: beginTest_flag UnMuter_new_def)
  have vi: "channels_valid two_chan_heap [None, Some 0, Some 1] 3 3"
    by (simp add: channels_valid_def valid_chan_def two_chan_heap_def)
  have vo: "channels_valid two_chan_heap [Some 2, None, Some 3] 3 3"
    by (simp add: channels_valid_def valid_chan_def two_chan_heap_def)
  have lo: "(1 :: nat) < nat (sint (3 :: cint))" "[None, Some 0, Some 1] ! 1 = Some (0 :: addr)"
    "[None, Some 0, Some (1 :: addr)] ! 0 = None"
    by simp_all
  have below: "\<forall>ich<1. [None, Some 0, Some (1 :: addr)] ! ich = None"
    by simp
  show ?thesis
    using on vi vo lo lowest_input_wins [OF on vi vo lo(1,2) below, of "()"]
    by blast
qed

text \<open>
  C10 (stale output in the active state with no usable input). With the run flag true, if
  the first \<open>numInputChannels\<close> input pointers are all null (which covers
  \<open>numInputChannels = 0\<close>), the call returns the store unchanged: nothing is written and
  no output channel is cleared.
\<close>

theorem active_no_input_stale:
  assumes "testIsRunning s"
    and "0 \<le> sint numInputChannels"
    and "sint numInputChannels \<le> int (length inputChannelData)"
    and "\<forall>ich<nat (sint numInputChannels). inputChannelData ! ich = None"
    and "0 \<le> sint numOutputChannels"
  shows "snd (audioDeviceIOCallbackWithContext s inputChannelData numInputChannels
               outputChannelData numOutputChannels numSamples context h) = Inr h"
proof -
  define kin where "kin = nat (sint numInputChannels)"
  define kout where "kout = nat (sint numOutputChannels)"
  have k: "sint numInputChannels = int kin" "sint numOutputChannels = int kout"
    "kin \<le> length inputChannelData"
    using assms(2,3,5) by (auto simp: kin_def kout_def)
  have "ich_loop inputChannelData outputChannelData j (int kin) (int kout) h = Inr h" for j
    using ich_loop_null [OF k(3)] assms(4) by (simp add: kin_def)
  then have "sample_loop inputChannelData (int kin) outputChannelData (int kout)
               (sint numSamples) 0 h = Inr h"
    by (intro sample_loop_id) simp
  then show ?thesis using assms(1) k(1,2) by (simp add: callback_branch)
qed

theorem active_no_input_stale_witness:
  "testIsRunning (snd (beginTest [] (UnMuter_new []))) \<and>
   0 \<le> sint (2 :: cint) \<and> sint (2 :: cint) \<le> int (length [None, None :: chan_ptr]) \<and>
   [None, None :: chan_ptr] ! 0 = None \<and> [None, None :: chan_ptr] ! 1 = None \<and>
   0 \<le> sint (1 :: cint) \<and>
   snd (audioDeviceIOCallbackWithContext (snd (beginTest [] (UnMuter_new [])))
          [None, None] 2 [Some 2] 1 3 () two_chan_heap) = Inr two_chan_heap"
proof -
  have on: "testIsRunning (snd (beginTest [] (UnMuter_new [])))"
    by (simp add: beginTest_flag UnMuter_new_def)
  have c: "0 \<le> sint (2 :: cint)" "sint (2 :: cint) \<le> int (length [None, None :: chan_ptr])"
    "0 \<le> sint (1 :: cint)"
    by simp_all
  have nulls: "\<forall>ich<nat (sint (2 :: cint)). [None, None :: chan_ptr] ! ich = None"
    by (simp add: less_Suc_eq numeral_2_eq_2)
  show ?thesis
    using on c active_no_input_stale [OF on c(1,2) nulls c(3), of "[Some 2]" 3 "()" two_chan_heap]
    by simp
qed

lemma take_1_nth: "xs \<noteq> [] \<Longrightarrow> take (Suc 0) xs = [xs ! 0]"
  by (cases xs) simp_all

lemma single_alias_pass:
  assumes "ins \<noteq> []" "ins ! 0 = Some a" "outs \<noteq> []" "outs ! 0 = Some a"
    and "h a = Some buf" "j < length buf"
  shows "ich_loop ins outs (int j) 1 1 h = Inr h"
proof -
  have "ich_loop ins outs (int j) (int 1) (int 1) h =
        ich_list (rev (take 1 ins)) (rev (take 1 outs)) (int j) h"
    using assms(1,3) by (intro ich_loop_list_nat) (simp_all add: Suc_leI)
  also have "\<dots> = ich_list [Some a] [Some a] (int j) h"
    using assms(1-4) by (simp add: take_1_nth)
  also have "\<dots> = Inr (h(a \<mapsto> buf[j := buf ! j]))"
    using copy1_Some [of h a buf a buf j] assms(5,6) by simp
  also have "h(a \<mapsto> buf[j := buf ! j]) = h"
    using assms(5) by (simp add: fun_upd_idem)
  finally show ?thesis by simp
qed

text \<open>
  C3 (active single-channel passthrough). With the run flag true and one input and one
  output channel, both not null and well formed, the call returns; afterwards the first
  \<open>numSamples\<close> samples of the output buffer equal those of the input buffer, and the
  input buffer is as it was on entry.
\<close>

theorem active_passthrough_single:
  assumes "testIsRunning s"
    and "numInputChannels = 1" and "numOutputChannels = 1"
    and "channels_valid h inputChannelData numInputChannels numSamples"
    and "channels_valid h outputChannelData numOutputChannels numSamples"
    and "inputChannelData ! 0 = Some a" and "outputChannelData ! 0 = Some b"
  shows "\<exists>h' in' out'. snd (audioDeviceIOCallbackWithContext s inputChannelData numInputChannels
                  outputChannelData numOutputChannels numSamples context h) = Inr h' \<and>
           h a = Some in' \<and> h' a = Some in' \<and> h' b = Some out' \<and>
           (\<forall>i<nat (sint numSamples). out' ! i = in' ! i)"
proof -
  have one: "nat (sint (1 :: cint)) = 1" by simp
  obtain in' where in': "h a = Some in'" and lin: "nat (sint numSamples) \<le> length in'"
    using channels_validD [OF assms(4) _ assms(6)] assms(2) by auto
  have ne: "inputChannelData \<noteq> []" "outputChannelData \<noteq> []"
    using assms(2-5) by (auto simp: channels_valid_def)
  show ?thesis
  proof (cases "a = b")
    case True
    have n0: "0 \<le> sint numSamples" using assms(4) by (simp add: channels_valid_def)
    have "ich_loop inputChannelData outputChannelData j 1 1 h = Inr h"
      if "0 \<le> j" "j < sint numSamples" for j
    proof -
      have "nat j < length in'" using that lin by linarith
      then show ?thesis
        using single_alias_pass [of inputChannelData a outputChannelData h in' "nat j"]
          ne assms(6,7) in' True that(1)
        by simp
    qed
    then have "sample_loop inputChannelData 1 outputChannelData 1 (sint numSamples) 0 h = Inr h"
      by (intro sample_loop_id) simp
    then have "snd (audioDeviceIOCallbackWithContext s inputChannelData numInputChannels
                  outputChannelData numOutputChannels numSamples context h) = Inr h"
      using assms(1-3) by (simp add: callback_branch)
    then show ?thesis using in' True by simp
  next
    case False
    have "\<forall>och<nat (sint numOutputChannels). outputChannelData ! och \<noteq> Some a"
      using assms(3,7) False by simp
    moreover have "0 < nat (sint numInputChannels)" "\<forall>ich<(0::nat). inputChannelData ! ich = None"
      using assms(2) by simp_all
    ultimately obtain h' where
      r: "sample_loop inputChannelData (sint numInputChannels) outputChannelData
            (sint numOutputChannels) (sint numSamples) 0 h = Inr h'"
      and sh: "shape h' = shape h"
      and w: "\<forall>och c k. och < nat (sint numOutputChannels) \<and> outputChannelData ! och = Some c \<and>
                k < nat (sint numSamples) \<longrightarrow> cell h' c k = cell h' a k"
      and keep: "h' a = h a"
      using active_lowest [OF assms(4,5) _ assms(6)] by blast
    obtain out0 where "h b = Some out0"
      using channels_validD [OF assms(5) _ assms(7)] assms(3) by auto
    then obtain out' where out': "h' b = Some out'"
      using shape_SomeD [OF sh] by blast
    have "out' ! i = in' ! i" if "i < nat (sint numSamples)" for i
    proof -
      have "cell h' b i = cell h' a i" using w assms(3,7) that by simp
      then show ?thesis using out' in' keep by (simp add: cell_def)
    qed
    moreover have "snd (audioDeviceIOCallbackWithContext s inputChannelData numInputChannels
                  outputChannelData numOutputChannels numSamples context h) = Inr h'"
      using r assms(1) by (simp add: callback_branch)
    ultimately show ?thesis using in' out' keep by simp
  qed
qed

theorem active_passthrough_single_witness:
  "testIsRunning (snd (beginTest [] (UnMuter_new []))) \<and>
   channels_valid two_chan_heap [Some 0] 1 3 \<and> channels_valid two_chan_heap [Some 2] 1 3 \<and>
   [Some (0 :: addr)] ! 0 = Some 0 \<and> [Some (2 :: addr)] ! 0 = Some 2 \<and>
   (\<exists>h' in' out'. snd (audioDeviceIOCallbackWithContext (snd (beginTest [] (UnMuter_new [])))
                        [Some 0] 1 [Some 2] 1 3 () two_chan_heap) = Inr h' \<and>
      two_chan_heap 0 = Some in' \<and> h' 0 = Some in' \<and> h' 2 = Some out' \<and>
      (\<forall>i<nat (sint (3 :: cint)). out' ! i = in' ! i))"
proof -
  have on: "testIsRunning (snd (beginTest [] (UnMuter_new [])))"
    by (simp add: beginTest_flag UnMuter_new_def)
  have vi: "channels_valid two_chan_heap [Some 0] 1 3"
    by (simp add: channels_valid_def valid_chan_def two_chan_heap_def)
  have vo: "channels_valid two_chan_heap [Some 2] 1 3"
    by (simp add: channels_valid_def valid_chan_def two_chan_heap_def)
  have p: "[Some (0 :: addr)] ! 0 = Some 0" "[Some (2 :: addr)] ! 0 = Some 2"
    by simp_all
  show ?thesis
    using on vi vo p active_passthrough_single [OF on refl refl vi vo p, of "()"]
    by blast
qed

text \<open>
  C1 (multi-channel fan-in scenario), as amended. With the run flag true, two input
  channels A = [1, 1] (index 0) and B = [2, 2] (index 1), one output channel of two samples
  that is not the buffer of A, and \<open>numSamples = 2\<close>: after the call the output channel
  holds the samples of A, [1, 1]. The input channels are visited from the highest index to
  the lowest, so channel 0 is copied last.
\<close>

theorem fan_in_lowest_index_survives:
  assumes "testIsRunning s"
    and "h a = Some [float_1, float_1]" and "h b = Some [float_2, float_2]"
    and "h c = Some [x, y]" and "c \<noteq> a"
  shows "buffer_after
           (snd (audioDeviceIOCallbackWithContext s [Some a, Some b] 2 [Some c] 1 2 context h)) c =
         Some [float_1, float_1]"
proof -
  have vi: "channels_valid h [Some a, Some b] 2 2"
    using assms(2,3) by (simp add: channels_valid_def valid_chan_def)
  have vo: "channels_valid h [Some c] 1 2"
    using assms(4) by (simp add: channels_valid_def valid_chan_def)
  have "\<forall>och<nat (sint (1 :: cint)). [Some c] ! och \<noteq> Some a"
    using assms(5) by simp
  then obtain h' where
    r: "sample_loop [Some a, Some b] (sint (2 :: cint)) [Some c] (sint (1 :: cint))
          (sint (2 :: cint)) 0 h = Inr h'"
    and sh: "shape h' = shape h"
    and w: "\<forall>och d k. och < nat (sint (1 :: cint)) \<and> [Some c] ! och = Some d \<and>
              k < nat (sint (2 :: cint)) \<longrightarrow> cell h' d k = cell h' a k"
    and keep: "h' a = h a"
    using active_lowest [OF vi vo, of 0 a] by auto
  obtain out' where out': "h' c = Some out'" and len: "length out' = 2"
    using shape_SomeD [OF sh assms(4)] by auto
  have "out' ! k = float_1" if "k < 2" for k
  proof -
    have "cell h' c k = cell h' a k" using w that by simp
    moreover have "k = 0 \<or> k = Suc 0" using that by (rule less_2_cases)
    ultimately show ?thesis using out' keep assms(2) by (auto simp: cell_def)
  qed
  then have "out' = [float_1, float_1]"
    using len by (auto simp: list_eq_iff_nth_eq dest: less_2_cases)
  then show ?thesis
    using r out' assms(1) by (simp add: callback_branch buffer_after_def)
qed

theorem fan_in_lowest_index_survives_witness:
  "testIsRunning (snd (beginTest [] (UnMuter_new []))) \<and>
   fan_in_heap 0 = Some [float_1, float_1] \<and> fan_in_heap 1 = Some [float_2, float_2] \<and>
   fan_in_heap 2 = Some [float_9, float_9] \<and> (2 :: addr) \<noteq> 0 \<and>
   buffer_after
     (snd (audioDeviceIOCallbackWithContext (snd (beginTest [] (UnMuter_new [])))
             [Some 0, Some 1] 2 [Some 2] 1 2 () fan_in_heap)) 2 =
     Some [float_1, float_1]"
proof -
  have on: "testIsRunning (snd (beginTest [] (UnMuter_new [])))"
    by (simp add: beginTest_flag UnMuter_new_def)
  have hs: "fan_in_heap 0 = Some [float_1, float_1]" "fan_in_heap 1 = Some [float_2, float_2]"
    "fan_in_heap 2 = Some [float_9, float_9]"
    by (simp_all add: fan_in_heap_def)
  have ne: "(2 :: addr) \<noteq> 0" by simp
  show ?thesis
    using on hs ne fan_in_lowest_index_survives [OF on hs ne, of "()"] by simp
qed

text \<open>
  C1 as stated fails: in the scenario the output channel does not end as [2, 2], the
  samples of B, but as [1, 1].
\<close>

theorem fan_in_scenario_counterexample:
  "buffer_after
     (snd (audioDeviceIOCallbackWithContext (snd (beginTest [] (UnMuter_new [])))
             [Some 0, Some 1] 2 [Some 2] 1 2 () fan_in_heap)) 2 \<noteq>
     Some [float_2, float_2] \<and>
   buffer_after
     (snd (audioDeviceIOCallbackWithContext (snd (beginTest [] (UnMuter_new [])))
             [Some 0, Some 1] 2 [Some 2] 1 2 () fan_in_heap)) 2 =
     Some [float_1, float_1]"
  by (simp add: callback_branch beginTest_flag UnMuter_new_def fan_in_heap_def buffer_after_def
      sample_loop.simps ich_loop.simps och_loop.simps copy_sample_def ptr_at_def load_def
      store_def INT_MIN_def Let_def float_1_def float_2_def)

section \<open>Null pointers and bounds\<close>

lemma copy_sample_no_null: "copy_sample ins outs i ich och h \<noteq> Inl NullPointer"
  by (auto simp: copy_sample_def ptr_at_def load_def store_def split: sum.splits option.splits)

lemma och_loop_no_null: "och_loop ins outs i ich och h \<noteq> Inl NullPointer"
proof (induction ins outs i ich och h rule: och_loop.induct)
  case (1 ins outs i ich och h)
  show ?case
    using "1.IH" copy_sample_no_null [of ins outs i ich "och - 1" h]
    by (subst och_loop.simps) (auto simp: Let_def split: sum.splits)
qed

lemma ich_loop_no_null: "ich_loop ins outs i ich nout h \<noteq> Inl NullPointer"
proof (induction ins outs i ich nout h rule: ich_loop.induct)
  case (1 ins outs i ich nout h)
  show ?case
    using "1.IH" och_loop_no_null [of ins outs i "ich - 1" nout h]
    by (subst ich_loop.simps) (auto simp: Let_def split: sum.splits)
qed

lemma sample_loop_no_null: "sample_loop ins nin outs nout n i h \<noteq> Inl NullPointer"
proof (induction ins nin outs nout n i h rule: sample_loop.induct)
  case (1 ins nin outs nout n i h)
  show ?case
    using "1.IH" ich_loop_no_null [of ins outs i nin nout h]
    by (subst sample_loop.simps) (auto split: sum.splits)
qed

lemma zeromem_no_null: "p \<noteq> None \<Longrightarrow> zeromem h p k \<noteq> Inl NullPointer"
  by (auto simp: zeromem_def split: option.splits)

lemma clear_loop_no_null: "clear_loop outs nout n i h \<noteq> Inl NullPointer"
proof (induction outs nout n i h rule: clear_loop.induct)
  case (1 outs nout n i h)
  show ?case
    using "1.IH" zeromem_no_null [of _ h "zeromem_size n"]
    by (subst clear_loop.simps) (auto simp: ptr_at_def split: sum.splits)
qed

lemma callback_no_null:
  "snd (audioDeviceIOCallbackWithContext s ins nin outs nout n ctx h) \<noteq> Inl NullPointer"
  by (simp add: callback_branch sample_loop_no_null clear_loop_no_null)

lemma och_list_filter: "och_list ip (filter non_null ops) i h = och_list ip ops i h"
  by (induction ops arbitrary: h) (auto simp: copy1_def non_null_def split: sum.splits)

lemma ich_list_filter_outs:
  "ich_list ips (filter non_null ops) i h = ich_list ips ops i h"
  by (induction ips arbitrary: h) (auto simp: och_list_filter split: sum.splits)

lemma ich_list_filter_ins:
  "ich_list (filter non_null ips) ops i h = ich_list ips ops i h"
  by (induction ips arbitrary: h) (auto simp: och_list_None non_null_def split: sum.splits)

lemma clear_list_filter: "clear_list (filter non_null ops) k h = clear_list ops k h"
  by (induction ops arbitrary: h) (auto simp: non_null_def split: sum.splits)

lemma ich_loop_filter:
  "ich_loop (filter non_null ins) (filter non_null outs) i
     (int (length (filter non_null ins))) (int (length (filter non_null outs))) h =
   ich_loop ins outs i (int (length ins)) (int (length outs)) h"
  using ich_loop_list_nat [of "length ins" ins "length outs" outs i h]
    ich_loop_list_nat [of "length (filter non_null ins)" "filter non_null ins"
      "length (filter non_null outs)" "filter non_null outs" i h]
  by (simp add: rev_filter ich_list_filter_ins ich_list_filter_outs)

lemma sample_loop_cong:
  assumes "\<And>j g. ich_loop ins' outs' j nin' nout' g = ich_loop ins outs j nin nout g"
  shows "sample_loop ins' nin' outs' nout' n i h = sample_loop ins nin outs nout n i h"
proof (induction "nat (n - i)" arbitrary: i h)
  case 0
  then show ?case
    using sample_loop.simps [of ins' nin' outs' nout' n i h]
      sample_loop.simps [of ins nin outs nout n i h]
    by simp
next
  case (Suc d)
  have "sample_loop ins' nin' outs' nout' n (i + 1) g = sample_loop ins nin outs nout n (i + 1) g"
    for g
    using Suc.hyps(1) [of "i + 1" g] Suc.hyps(2) by simp
  then show ?case
    using sample_loop.simps [of ins' nin' outs' nout' n i h]
      sample_loop.simps [of ins nin outs nout n i h]
    by (simp add: assms split: sum.splits)
qed

lemma clear_loop_filter:
  "clear_loop (filter non_null outs) (int (length (filter non_null outs))) n 0 h =
   clear_loop outs (int (length outs)) n 0 h"
  using clear_loop_list_nat [of "length outs" outs 0 n h]
    clear_loop_list_nat [of "length (filter non_null outs)" "filter non_null outs" 0 n h]
  by (simp add: clear_list_filter)

lemma callback_filter:
  assumes "sint nin = int (length ins)" "sint nout = int (length outs)"
    and "sint nin' = int (length (filter non_null ins))"
    and "sint nout' = int (length (filter non_null outs))"
  shows "snd (audioDeviceIOCallbackWithContext s (filter non_null ins) nin'
                (filter non_null outs) nout' n ctx h) =
         snd (audioDeviceIOCallbackWithContext s ins nin outs nout n ctx h)"
  using assms sample_loop_cong [OF ich_loop_filter, of ins outs "sint n" 0 h]
    clear_loop_filter [of outs n h]
  by (simp add: callback_branch)

lemma callback_frame:
  assumes "channels_valid h ins nin n" "channels_valid h outs nout n"
  shows "\<exists>h'. snd (audioDeviceIOCallbackWithContext s ins nin outs nout n ctx h) = Inr h' \<and>
           shape h' = shape h \<and>
           (\<forall>b k. \<not> (\<exists>och<nat (sint nout). outs ! och = Some b) \<or> nat (sint n) \<le> k \<longrightarrow>
              cell h' b k = cell h b k)"
proof (cases "testIsRunning s")
  case True
  then show ?thesis
    using active_post [OF assms] by (auto simp: callback_branch)
next
  case False
  obtain h' where "clear_loop outs (sint nout) n 0 h = Inr h'" "shape h' = shape h"
    "\<forall>b k. cell h' b k =
       (if (\<exists>och<nat (sint nout). outs ! och = Some b) \<and> k < nat (sint n) then 0
        else cell h b k)"
    using idle_post [OF assms(2)] by blast
  then show ?thesis
    using False by (auto simp: callback_branch)
qed

lemma shape_cells_tail:
  assumes "shape h' = shape h" "h a = Some buf" "\<forall>k\<ge>m. cell h' a k = cell h a k"
  shows "\<exists>buf'. h' a = Some buf' \<and> length buf' = length buf \<and> drop m buf' = drop m buf"
proof -
  obtain buf' where b': "h' a = Some buf'" "length buf' = length buf"
    using shape_SomeD [OF assms(1,2)] by blast
  have "drop m buf' ! k = drop m buf ! k" if "k < length buf - m" for k
    using assms(2,3) b' that by (simp add: cell_def)
  then have "drop m buf' = drop m buf"
    using b'(2) by (simp add: list_eq_iff_nth_eq)
  then show ?thesis using b' by simp
qed

text \<open>
  C6 (null-channel safety and bounds). (1) No call ever dereferences a null channel
  pointer. (2) A call that is well formed for the input and the output channels returns
  without a fault, although a buffer may hold no more than \<open>numSamples\<close> samples, so no
  access goes outside the index range \<open>[0, numSamples)\<close>; a buffer that is not an output
  channel is left unchanged, and every buffer keeps its length and its samples from index
  \<open>numSamples\<close> on. (3) Null pointers have no effect on the other channels: the call
  with the full arrays has the same outcome as the call with only the pointers that are
  not null.
\<close>

theorem null_channel_safety:
  "snd (audioDeviceIOCallbackWithContext s inputChannelData numInputChannels outputChannelData
          numOutputChannels numSamples context h) \<noteq> Inl NullPointer \<and>
   (channels_valid h inputChannelData numInputChannels numSamples \<and>
    channels_valid h outputChannelData numOutputChannels numSamples \<longrightarrow>
      (\<exists>h'. snd (audioDeviceIOCallbackWithContext s inputChannelData numInputChannels
                   outputChannelData numOutputChannels numSamples context h) = Inr h' \<and>
         (\<forall>a. (\<forall>och<nat (sint numOutputChannels). outputChannelData ! och \<noteq> Some a) \<longrightarrow>
            h' a = h a) \<and>
         (\<forall>a buf. h a = Some buf \<longrightarrow>
            (\<exists>buf'. h' a = Some buf' \<and> length buf' = length buf \<and>
               drop (nat (sint numSamples)) buf' = drop (nat (sint numSamples)) buf)))) \<and>
   (sint numInputChannels = int (length inputChannelData) \<and>
    sint numOutputChannels = int (length outputChannelData) \<and>
    sint numInputChannels' = int (length (filter non_null inputChannelData)) \<and>
    sint numOutputChannels' = int (length (filter non_null outputChannelData)) \<longrightarrow>
      snd (audioDeviceIOCallbackWithContext s inputChannelData numInputChannels
             outputChannelData numOutputChannels numSamples context h) =
      snd (audioDeviceIOCallbackWithContext s (filter non_null inputChannelData)
             numInputChannels' (filter non_null outputChannelData) numOutputChannels'
             numSamples context h))"
proof (intro conjI impI)
  show "snd (audioDeviceIOCallbackWithContext s inputChannelData numInputChannels
          outputChannelData numOutputChannels numSamples context h) \<noteq> Inl NullPointer"
    by (rule callback_no_null)
next
  assume v: "channels_valid h inputChannelData numInputChannels numSamples \<and>
    channels_valid h outputChannelData numOutputChannels numSamples"
  obtain h' where r: "snd (audioDeviceIOCallbackWithContext s inputChannelData numInputChannels
                   outputChannelData numOutputChannels numSamples context h) = Inr h'"
    and sh: "shape h' = shape h"
    and fr: "\<forall>b k. \<not> (\<exists>och<nat (sint numOutputChannels). outputChannelData ! och = Some b) \<or>
              nat (sint numSamples) \<le> k \<longrightarrow> cell h' b k = cell h b k"
    using callback_frame [of h inputChannelData numInputChannels numSamples outputChannelData
        numOutputChannels s "context"] v
    by blast
  have keep: "h' a = h a"
    if "\<forall>och<nat (sint numOutputChannels). outputChannelData ! och \<noteq> Some a" for a
  proof (rule heap_at_eqI [OF sh])
    fix k show "cell h' a k = cell h a k" using fr that by blast
  qed
  have tail: "\<exists>buf'. h' a = Some buf' \<and> length buf' = length buf \<and>
               drop (nat (sint numSamples)) buf' = drop (nat (sint numSamples)) buf"
    if "h a = Some buf" for a buf
    using shape_cells_tail [OF sh that, of "nat (sint numSamples)"] fr by blast
  show "\<exists>h'. snd (audioDeviceIOCallbackWithContext s inputChannelData numInputChannels
                   outputChannelData numOutputChannels numSamples context h) = Inr h' \<and>
         (\<forall>a. (\<forall>och<nat (sint numOutputChannels). outputChannelData ! och \<noteq> Some a) \<longrightarrow>
            h' a = h a) \<and>
         (\<forall>a buf. h a = Some buf \<longrightarrow>
            (\<exists>buf'. h' a = Some buf' \<and> length buf' = length buf \<and>
               drop (nat (sint numSamples)) buf' = drop (nat (sint numSamples)) buf))"
    using r keep tail by blast
next
  assume "sint numInputChannels = int (length inputChannelData) \<and>
    sint numOutputChannels = int (length outputChannelData) \<and>
    sint numInputChannels' = int (length (filter non_null inputChannelData)) \<and>
    sint numOutputChannels' = int (length (filter non_null outputChannelData))"
  then show "snd (audioDeviceIOCallbackWithContext s inputChannelData numInputChannels
             outputChannelData numOutputChannels numSamples context h) =
      snd (audioDeviceIOCallbackWithContext s (filter non_null inputChannelData)
             numInputChannels' (filter non_null outputChannelData) numOutputChannels'
             numSamples context h)"
    using callback_filter [of numInputChannels inputChannelData numOutputChannels
        outputChannelData numInputChannels' numOutputChannels' s numSamples "context" h]
    by simp
qed

theorem null_channel_safety_witness:
  "channels_valid two_chan_heap [None, Some 0, Some 1] 3 3 \<and>
   channels_valid two_chan_heap [Some 2, None] 2 3 \<and>
   sint (3 :: cint) = int (length [None, Some 0, Some (1 :: addr)]) \<and>
   sint (2 :: cint) = int (length [Some (2 :: addr), None]) \<and>
   sint (2 :: cint) = int (length (filter non_null [None, Some 0, Some 1])) \<and>
   sint (1 :: cint) = int (length (filter non_null [Some 2, None])) \<and>
   snd (audioDeviceIOCallbackWithContext (snd (beginTest [] (UnMuter_new [])))
          [None, Some 0, Some 1] 3 [Some 2, None] 2 3 () two_chan_heap) \<noteq> Inl NullPointer \<and>
   (\<exists>h'. snd (audioDeviceIOCallbackWithContext (snd (beginTest [] (UnMuter_new [])))
                [None, Some 0, Some 1] 3 [Some 2, None] 2 3 () two_chan_heap) = Inr h' \<and>
      (\<forall>a. (\<forall>och<nat (sint (2 :: cint)). [Some 2, None] ! och \<noteq> Some a) \<longrightarrow>
         h' a = two_chan_heap a) \<and>
      (\<forall>a buf. two_chan_heap a = Some buf \<longrightarrow>
         (\<exists>buf'. h' a = Some buf' \<and> length buf' = length buf \<and>
            drop (nat (sint (3 :: cint))) buf' = drop (nat (sint (3 :: cint))) buf))) \<and>
   snd (audioDeviceIOCallbackWithContext (snd (beginTest [] (UnMuter_new [])))
          [None, Some 0, Some 1] 3 [Some 2, None] 2 3 () two_chan_heap) =
   snd (audioDeviceIOCallbackWithContext (snd (beginTest [] (UnMuter_new [])))
          (filter non_null [None, Some 0, Some 1]) 2 (filter non_null [Some 2, None]) 1 3 ()
          two_chan_heap)"
proof -
  have vi: "channels_valid two_chan_heap [None, Some 0, Some 1] 3 3"
    by (simp add: channels_valid_def valid_chan_def two_chan_heap_def)
  have vo: "channels_valid two_chan_heap [Some 2, None] 2 3"
    by (simp add: channels_valid_def valid_chan_def two_chan_heap_def)
  have c: "sint (3 :: cint) = int (length [None, Some 0, Some (1 :: addr)])"
    "sint (2 :: cint) = int (length [Some (2 :: addr), None])"
    "sint (2 :: cint) = int (length (filter non_null [None, Some 0, Some 1]))"
    "sint (1 :: cint) = int (length (filter non_null [Some 2, None]))"
    by (simp_all add: non_null_def)
  show ?thesis
    using vi vo c
      null_channel_safety [of "snd (beginTest [] (UnMuter_new []))" "[None, Some 0, Some 1]" 3
        "[Some 2, None]" 2 3 "()" two_chan_heap 2 1]
    by blast
qed

end
